theory Spec2Isabelle
  imports Main
begin

section \<open>Circuit breaker (class CircuitBreaker)\<close>

text \<open>
  The breaker of the highest tier, embedded by explicit state passing. The private fields
  and the read-only constructor parameters of the class form one record. JavaScript numbers
  that count events or hold millisecond timestamps are modelled as \<open>int\<close>.
\<close>

datatype CircuitState = CLOSED | OPEN | HALF_OPEN

record CircuitBreaker =
  name :: string
  threshold :: int
  timeout :: int
  successThreshold :: int
  state :: CircuitState
  failures :: int
  successCount :: int
  lastFailureTime :: int

text \<open>
  A thrown JavaScript value, reduced to the name of its constructor (its kind) and its
  message; \<open>new Error(m)\<close> is \<open>JsError ''Error'' m\<close>. Further own properties of an
  error object (\<open>code\<close>, \<open>stack\<close>) are left out: the breaker and the queue only pass
  thrown values on, so two values that agree here may still differ in those.
\<close>

datatype js_error = JsError (kind: string) (message: string)

text \<open>
  What a call of \<open>execute\<close> does to the outside, in program order: invoking the guarded
  function, invoking the fallback, writing to the logger and emitting an event.
\<close>

datatype effect =
    Call_fn
  | Call_fallback
  | Logger_info string
  | Logger_error string
  | Emit string

text \<open>The dash of the log messages, as its three UTF-8 bytes.\<close>

definition em_dash :: string where
  "em_dash = [CHR 0xE2, CHR 0x80, CHR 0x94]"

text \<open>
  The constructor. The TypeScript defaults (5, 30000, 3) apply when an argument is left
  out; \<open>new_CircuitBreaker_default\<close> is the call with the name only.
\<close>

definition new_CircuitBreaker :: "string \<Rightarrow> int \<Rightarrow> int \<Rightarrow> int \<Rightarrow> CircuitBreaker" where
  "new_CircuitBreaker n th tmo sth =
     \<lparr> name = n, threshold = th, timeout = tmo, successThreshold = sth,
       state = CLOSED, failures = 0, successCount = 0, lastFailureTime = 0 \<rparr>"

definition new_CircuitBreaker_default :: "string \<Rightarrow> CircuitBreaker" where
  "new_CircuitBreaker_default n = new_CircuitBreaker n 5 30000 3"

definition dbCircuit :: CircuitBreaker where
  "dbCircuit = new_CircuitBreaker ''postgres'' 3 20000 2"

definition redisCircuit :: CircuitBreaker where
  "redisCircuit = new_CircuitBreaker ''redis'' 5 30000 3"

definition onSuccess :: "CircuitBreaker \<Rightarrow> CircuitBreaker \<times> effect list" where
  "onSuccess cb =
     (let cb1 = cb\<lparr>failures := 0\<rparr> in
      if state cb1 = HALF_OPEN then
        (let cb2 = cb1\<lparr>successCount := successCount cb1 + 1\<rparr> in
         if successCount cb2 \<ge> successThreshold cb2 then
           (cb2\<lparr>state := CLOSED, successCount := 0\<rparr>,
            [Logger_info (''Circuit '' @ name cb2 @ '': CLOSED '' @ em_dash @ '' recovered'')])
         else (cb2, []))
      else (cb1, []))"

text \<open>\<open>onFailure cb t\<close>: \<open>t\<close> is the value \<open>Date.now()\<close> returns inside \<open>onFailure\<close>.\<close>

definition onFailure :: "CircuitBreaker \<Rightarrow> int \<Rightarrow> CircuitBreaker \<times> effect list" where
  "onFailure cb t =
     (let cb1 = cb\<lparr>failures := failures cb + 1\<rparr>;
          cb2 = cb1\<lparr>lastFailureTime := t\<rparr> in
      if failures cb2 \<ge> threshold cb2 \<or> state cb2 = HALF_OPEN then
        (cb2\<lparr>state := OPEN, successCount := 0\<rparr>,
         [Logger_error (''Circuit '' @ name cb2 @ '': OPEN '' @ em_dash @ '' failing fast''),
          Emit ''open''])
      else (cb2, []))"

text \<open>The error thrown when the circuit is open and there is no fallback.\<close>

definition open_error :: "CircuitBreaker \<Rightarrow> js_error" where
  "open_error cb = JsError ''Error'' (''Circuit '' @ name cb @ '' is OPEN'')"

text \<open>
  \<open>execute cb fn fallback now now'\<close> is one call of \<open>execute\<close> that runs to its end
  with no other call of the same breaker in between.
  \<^item> \<open>fn\<close> is what awaiting the guarded function yields if it is invoked:
    \<open>Inr v\<close> when it fulfils with \<open>v\<close>, \<open>Inl e\<close> when it throws or rejects with \<open>e\<close>;
  \<^item> \<open>fallback\<close> is \<open>None\<close> when no fallback is passed, and otherwise what calling it yields;
  \<^item> \<open>now\<close> is \<open>Date.now()\<close> at the test of the open circuit, \<open>now'\<close> is
    \<open>Date.now()\<close> inside \<open>onFailure\<close>, after the guarded function has settled.
  The result is what the returned promise settles to, the breaker afterwards, and the
  effects in program order.
\<close>

definition execute ::
  "CircuitBreaker \<Rightarrow> (js_error + 'a) \<Rightarrow> (js_error + 'a) option \<Rightarrow> int \<Rightarrow> int
     \<Rightarrow> (js_error + 'a) \<times> CircuitBreaker \<times> effect list" where
  "execute cb fn fallback now now' =
     (if state cb = OPEN \<and> \<not> (now - lastFailureTime cb > timeout cb) then
        (case fallback of
           Some fb \<Rightarrow> (fb, cb, [Call_fallback])
         | None \<Rightarrow> (Inl (open_error cb), cb, []))
      else
        (let (cb1, es1) =
               (if state cb = OPEN then
                  (cb\<lparr>state := HALF_OPEN\<rparr>,
                   [Logger_info (''Circuit '' @ name cb @ '': HALF_OPEN '' @ em_dash @ '' testing'')])
                else (cb, [])) in
         case fn of
           Inr result \<Rightarrow>
             (let (cb2, es2) = onSuccess cb1 in (Inr result, cb2, es1 @ [Call_fn] @ es2))
         | Inl err \<Rightarrow>
             (let (cb2, es2) = onFailure cb1 now' in
              case fallback of
                Some fb \<Rightarrow> (fb, cb2, es1 @ [Call_fn] @ es2 @ [Call_fallback])
              | None \<Rightarrow> (Inl err, cb2, es1 @ [Call_fn] @ es2))))"

text \<open>\<open>getState\<close>, in the same state-passing style: the value returned and the breaker afterwards.\<close>

definition getState :: "CircuitBreaker \<Rightarrow> CircuitState \<times> CircuitBreaker" where
  "getState cb = (state cb, cb)"

text \<open>
  One guarded call as data, and a sequence of calls of \<open>execute\<close> on the same breaker,
  each finished before the next starts.
\<close>

record 'a guarded_call =
  fn :: "js_error + 'a"
  fallback :: "(js_error + 'a) option"
  now :: int
  now' :: int

definition execute_call :: "CircuitBreaker \<Rightarrow> 'a guarded_call \<Rightarrow> CircuitBreaker" where
  "execute_call cb c = fst (snd (execute cb (fn c) (fallback c) (now c) (now' c)))"

definition executes :: "CircuitBreaker \<Rightarrow> 'a guarded_call list \<Rightarrow> CircuitBreaker" where
  "executes cb cs = foldl execute_call cb cs"

section \<open>Batching write queue (class WriteQueue)\<close>

text \<open>
  The row type \<open>User\<close> and the payload type \<open>Partial<User>\<close>, in which every field
  may be missing (\<open>None\<close> is JavaScript's \<open>undefined\<close>).
\<close>

record User =
  id_u :: int
  name_u :: string
  email_u :: string
  created_at_u :: string

record Partial_User =
  id_p :: "int option"
  name_p :: "string option"
  email_p :: "string option"
  created_at_p :: "string option"

datatype job_type = Create | Update | Delete

text \<open>
  \<open>JobRequest\<close> is the argument of \<open>enqueue\<close> (a \<open>WriteJob\<close> without \<open>resolve\<close> and
  \<open>reject\<close>). In a \<open>WriteJob\<close> the two callbacks are the settling functions of the
  promise that \<open>enqueue\<close> creates; the field \<open>promise\<close> is the handle of that promise.
\<close>

record JobRequest =
  type :: job_type
  payload :: Partial_User
  timestamp :: int

record WriteJob = JobRequest +
  promise :: nat

text \<open>
  The promises created so far, by handle. A promise is settled once: \<open>resolve\<close> and
  \<open>reject\<close> on a promise that is no longer pending do nothing.
\<close>

datatype promise_state = Pending | Fulfilled "User option" | Rejected js_error

type_synonym promises = "promise_state list"

text \<open>
  What the queue does to the outside, in program order: registering the timer, sending a
  statement with its parameters to the first shard, and calling a job's \<open>resolve\<close> or
  \<open>reject\<close>. The class never clears its timer, so there is no effect for that.
\<close>

datatype q_effect =
    Set_interval nat
  | Query string "string option list"
  | Resolve nat "User option"
  | Reject nat js_error

fun settle :: "promises \<Rightarrow> q_effect \<Rightarrow> promises" where
  "settle ps (Resolve h v) =
     (if h < length ps \<and> ps ! h = Pending then ps[h := Fulfilled v] else ps)"
| "settle ps (Reject h e) =
     (if h < length ps \<and> ps ! h = Pending then ps[h := Rejected e] else ps)"
| "settle ps (Set_interval n) = ps"
| "settle ps (Query q vs) = ps"

definition settle_all :: "promises \<Rightarrow> q_effect list \<Rightarrow> promises" where
  "settle_all ps es = foldl settle ps es"

record WriteQueue =
  queue :: "WriteJob list"
  flushing :: bool

definition BATCH_SIZE :: nat where
  "BATCH_SIZE = 100"

definition FLUSH_INTERVAL_MS :: nat where
  "FLUSH_INTERVAL_MS = 50"

definition new_WriteQueue :: "WriteQueue \<times> q_effect list" where
  "new_WriteQueue = (\<lparr> queue = [], flushing = False \<rparr>, [Set_interval FLUSH_INTERVAL_MS])"

text \<open>
  \<open>enqueue\<close> creates a promise, appends the job carrying its callbacks, and returns the
  promise.
\<close>

definition enqueue :: "WriteQueue \<Rightarrow> promises \<Rightarrow> JobRequest \<Rightarrow> WriteQueue \<times> promises \<times> nat" where
  "enqueue wq ps job =
     (let h = length ps;
          j = \<lparr> type = type job, payload = payload job, timestamp = timestamp job, promise = h \<rparr>
      in (wq\<lparr>queue := queue wq @ [j]\<rparr>, ps @ [Pending], h))"

text \<open>\<open>rows[i]\<close>: \<open>undefined\<close> beyond the end of the array.\<close>

definition js_index :: "'a list \<Rightarrow> nat \<Rightarrow> 'a option" where
  "js_index xs i = (if i < length xs then Some (xs ! i) else None)"

text \<open>Decimal digits of a number, as a template literal prints it.\<close>

fun show_nat :: "nat \<Rightarrow> string" where
  "show_nat n =
     (if n < 10 then [char_of (48 + n)]
      else show_nat (n div 10) @ [char_of (48 + n mod 10)])"

declare show_nat.simps [simp del]

text \<open>\<open>Array.prototype.join\<close> on strings.\<close>

fun join :: "string \<Rightarrow> string list \<Rightarrow> string" where
  "join sep [] = []"
| "join sep [x] = x"
| "join sep (x # y # ys) = x @ sep @ join sep (y # ys)"

text \<open>The multi-row INSERT built from the creates of a batch: its text and its parameters.\<close>

definition placeholders :: "WriteJob list \<Rightarrow> string list" where
  "placeholders creates =
     map (\<lambda>i. (let base = i * 2 in
                ''($'' @ show_nat (base + 1) @ '', $'' @ show_nat (base + 2) @ '')''))
       [0..<length creates]"

definition values_of :: "WriteJob list \<Rightarrow> string option list" where
  "values_of creates = concat (map (\<lambda>job. [name_p (payload job), email_p (payload job)]) creates)"

definition insert_sql :: "WriteJob list \<Rightarrow> string" where
  "insert_sql creates =
     ''INSERT INTO users (name, email) VALUES '' @ join '','' (placeholders creates)
       @ [CHR 0x0A] @ ''           RETURNING id, name, email, created_at''"

text \<open>
  \<open>flush\<close> is asynchronous: it suspends at the query when the batch has a create, and the
  timer and \<open>enqueue\<close> may run before it resumes. It is embedded in two halves.
  \<open>flush_start\<close> runs up to the query: \<open>Skipped\<close> is the early return, \<open>Finished\<close> a
  drained batch with no create in it (no query is sent and the call runs to its end),
  \<open>Awaiting\<close> the suspended call with its batch and the query it has sent.
  \<open>flush_resume\<close> runs from the settling of the query to the end, on the queue as it is by
  then; the second argument is the batch, the third what the query settled to
  (\<open>Inr rows\<close> or \<open>Inl err\<close>).
\<close>

datatype flush_step =
    Skipped
  | Finished WriteQueue "WriteJob list"
  | Awaiting WriteQueue "WriteJob list" string "string option list"

definition flush_start :: "WriteQueue \<Rightarrow> flush_step" where
  "flush_start wq =
     (if flushing wq \<or> length (queue wq) = 0 then Skipped
      else
        (let wq1 = wq\<lparr>flushing := True\<rparr>;
             batch = take BATCH_SIZE (queue wq1);
             wq2 = wq1\<lparr>queue := drop BATCH_SIZE (queue wq1)\<rparr>;
             creates = filter (\<lambda>j. type j = Create) batch
         in if length creates > 0
            then Awaiting wq2 batch (insert_sql creates) (values_of creates)
            else Finished (wq2\<lparr>flushing := False\<rparr>) batch))"

definition flush_resume ::
  "WriteQueue \<Rightarrow> WriteJob list \<Rightarrow> js_error + User list \<Rightarrow> WriteQueue \<times> q_effect list" where
  "flush_resume wq batch settled =
     (let creates = filter (\<lambda>j. type j = Create) batch;
          es = (case settled of
                  Inr rows \<Rightarrow>
                    map (\<lambda>(job, i). Resolve (promise job) (js_index rows i))
                      (zip creates [0..<length creates])
                | Inl err \<Rightarrow> map (\<lambda>job. Reject (promise job) err) batch)
      in (wq\<lparr>flushing := False\<rparr>, es))"

text \<open>
  One whole call of \<open>flush\<close> with nothing in between; \<open>query\<close> is the first shard,
  giving what a statement with its parameters settles to.
\<close>

definition flush ::
  "WriteQueue \<Rightarrow> (string \<Rightarrow> string option list \<Rightarrow> js_error + User list)
     \<Rightarrow> WriteQueue \<times> q_effect list" where
  "flush wq query =
     (case flush_start wq of
        Skipped \<Rightarrow> (wq, [])
      | Finished wq' batch \<Rightarrow> (wq', [])
      | Awaiting wq' batch sql vs \<Rightarrow>
          (let (wq'', es) = flush_resume wq' batch (query sql vs)
           in (wq'', Query sql vs # es)))"

text \<open>The batch a call of \<open>flush\<close> drains (empty for the early return).\<close>

definition drained :: "WriteQueue \<Rightarrow> WriteJob list" where
  "drained wq =
     (case flush_start wq of
        Skipped \<Rightarrow> []
      | Finished wq' batch \<Rightarrow> batch
      | Awaiting wq' batch sql vs \<Rightarrow> batch)"

text \<open>
  \<open>n\<close> timer ticks, each call of \<open>flush\<close> finished before the next tick: the batches
  drained, the queue afterwards and the effects.
\<close>

fun ticks ::
  "nat \<Rightarrow> WriteQueue \<Rightarrow> (string \<Rightarrow> string option list \<Rightarrow> js_error + User list)
     \<Rightarrow> WriteJob list list \<times> WriteQueue \<times> q_effect list" where
  "ticks 0 wq query = ([], wq, [])"
| "ticks (Suc n) wq query =
     (let (wq1, es1) = flush wq query;
          (bs, wq2, es2) = ticks n wq1 query
      in (drained wq # bs, wq2, es1 @ es2))"

text \<open>Enqueueing a list of requests one after the other.\<close>

fun enqueue_all :: "WriteQueue \<Rightarrow> promises \<Rightarrow> JobRequest list \<Rightarrow> WriteQueue \<times> promises" where
  "enqueue_all wq ps [] = (wq, ps)"
| "enqueue_all wq ps (r # rs) =
     (let (wq1, ps1, h) = enqueue wq ps r in enqueue_all wq1 ps1 rs)"

text \<open>
  The promises of the queued jobs are distinct and pending: what \<open>enqueue\<close> establishes
  by creating a new promise for every job.
\<close>

definition pending_jobs :: "WriteJob list \<Rightarrow> promises \<Rightarrow> bool" where
  "pending_jobs js ps \<longleftrightarrow>
     distinct (map promise js) \<and> (\<forall>j \<in> set js. promise j < length ps \<and> ps ! promise j = Pending)"

section \<open>Reading results, and inputs for the concrete checks\<close>


abbreviation breaker_of :: "'r \<times> CircuitBreaker \<times> effect list \<Rightarrow> CircuitBreaker" where
  "breaker_of x \<equiv> fst (snd x)"

abbreviation effects_of :: "'r \<times> CircuitBreaker \<times> effect list \<Rightarrow> effect list" where
  "effects_of x \<equiv> snd (snd x)"

text \<open>The message logged at the transition from open to half-open.\<close>

definition half_open_message :: "CircuitBreaker \<Rightarrow> string" where
  "half_open_message cb = ''Circuit '' @ name cb @ '': HALF_OPEN '' @ em_dash @ '' testing''"


text \<open>
  Concrete breaker histories: a guarded call that fails, respectively succeeds, at time
  \<open>t\<close>; the database breaker after three failures in a row; and the same breaker after
  one further call, made once its timeout of 20000 ms has passed, has succeeded.
\<close>

definition failing :: "int \<Rightarrow> unit guarded_call" where
  "failing t = \<lparr> fn = Inl (JsError ''DatabaseError'' ''connection refused''), fallback = None,
       now = t, now' = t \<rparr>"

definition succeeding :: "int \<Rightarrow> unit guarded_call" where
  "succeeding t = \<lparr> fn = Inr (), fallback = None, now = t, now' = t \<rparr>"

definition opened_db :: CircuitBreaker where
  "opened_db = executes dbCircuit [failing 10, failing 20, failing 30]"

definition probing_db :: CircuitBreaker where
  "probing_db = executes opened_db [succeeding 20031]"

text \<open>
  The promise an effect settles and the state it gives to a pending promise; the creates of
  a batch; the job that \<open>enqueue\<close> builds from a request and a promise.
\<close>

fun promise_of :: "q_effect \<Rightarrow> nat option" where
  "promise_of (Resolve h v) = Some h"
| "promise_of (Reject h e) = Some h"
| "promise_of (Set_interval n) = None"
| "promise_of (Query q vs) = None"

fun outcome_of :: "q_effect \<Rightarrow> promise_state" where
  "outcome_of (Resolve h v) = Fulfilled v"
| "outcome_of (Reject h e) = Rejected e"
| "outcome_of (Set_interval n) = Pending"
| "outcome_of (Query q vs) = Pending"

definition creates_of :: "WriteJob list \<Rightarrow> WriteJob list" where
  "creates_of batch = filter (\<lambda>j. type j = Create) batch"

definition job :: "JobRequest \<Rightarrow> nat \<Rightarrow> WriteJob" where
  "job r h = \<lparr> type = type r, payload = payload r, timestamp = timestamp r, promise = h \<rparr>"

text \<open>
  A concrete queue: two creates with an update between them, enqueued on a new queue; the
  first shard answering with the two inserted rows, and the first shard failing.
\<close>

definition create_request :: "string \<Rightarrow> string \<Rightarrow> JobRequest" where
  "create_request n e =
     \<lparr> type = Create,
       payload = \<lparr> id_p = None, name_p = Some n, email_p = Some e, created_at_p = None \<rparr>,
       timestamp = 0 \<rparr>"

definition update_request :: JobRequest where
  "update_request =
     \<lparr> type = Update,
       payload = \<lparr> id_p = Some 7, name_p = Some ''Eve'', email_p = None, created_at_p = None \<rparr>,
       timestamp = 0 \<rparr>"

definition mixed_queue :: "WriteQueue \<times> promises" where
  "mixed_queue =
     enqueue_all (fst new_WriteQueue) []
       [create_request ''Ann'' ''ann@x.org'', update_request, create_request ''Bob'' ''bob@x.org'']"

definition ann_row :: User where
  "ann_row = \<lparr> id_u = 1, name_u = ''Ann'', email_u = ''ann@x.org'', created_at_u = ''2024-01-01'' \<rparr>"

definition bob_row :: User where
  "bob_row = \<lparr> id_u = 2, name_u = ''Bob'', email_u = ''bob@x.org'', created_at_u = ''2024-01-01'' \<rparr>"

definition shard_up :: "string \<Rightarrow> string option list \<Rightarrow> js_error + User list" where
  "shard_up sql vs = Inr [ann_row, bob_row]"

definition shard_down :: "string \<Rightarrow> string option list \<Rightarrow> js_error + User list" where
  "shard_down sql vs = Inl (JsError ''Error'' ''Connection terminated unexpectedly'')"

section \<open>Properties of the circuit breaker\<close>

lemma execute_passes_failure:
  "state cb \<noteq> OPEN \<Longrightarrow>
   execute cb (Inl e) fb t t' =
     (case fb of Some r \<Rightarrow> r | None \<Rightarrow> Inl e, fst (onFailure cb t'),
      [Call_fn] @ snd (onFailure cb t') @ (case fb of Some r \<Rightarrow> [Call_fallback] | None \<Rightarrow> []))"
  by (simp add: execute_def split: option.split prod.split)

lemma execute_passes_success:
  "state cb \<noteq> OPEN \<Longrightarrow>
   execute cb (Inr v) fb t t' = (Inr v, fst (onSuccess cb), [Call_fn] @ snd (onSuccess cb))"
  by (simp add: execute_def split: option.split prod.split)

lemma execute_call_failure:
  "state cb \<noteq> OPEN \<Longrightarrow> isl (fn c) \<Longrightarrow> execute_call cb c = fst (onFailure cb (now' c))"
  by (cases "fn c") (simp_all add: execute_call_def execute_passes_failure)

lemma execute_call_success:
  "state cb \<noteq> OPEN \<Longrightarrow> \<not> isl (fn c) \<Longrightarrow> execute_call cb c = fst (onSuccess cb)"
  by (cases "fn c") (simp_all add: execute_call_def execute_passes_success)

lemma onFailure_closed:
  "state cb = CLOSED \<Longrightarrow>
   fst (onFailure cb t) =
     (if failures cb + 1 \<ge> threshold cb
      then cb\<lparr>failures := failures cb + 1, lastFailureTime := t, state := OPEN, successCount := 0\<rparr>
      else cb\<lparr>failures := failures cb + 1, lastFailureTime := t\<rparr>)"
  by (simp add: onFailure_def Let_def)

lemma onSuccess_closed:
  "state cb = CLOSED \<Longrightarrow> fst (onSuccess cb) = cb\<lparr>failures := 0\<rparr>"
  by (simp add: onSuccess_def Let_def)

lemma executes_Cons: "executes cb (c # cs) = executes (execute_call cb c) cs"
  by (simp add: executes_def)

lemma executes_Nil: "executes cb [] = cb"
  by (simp add: executes_def)

lemma executes_snoc: "executes cb (cs @ [c]) = execute_call (executes cb cs) c"
  by (simp add: executes_def)

lemma failures_below_threshold:
  "state cb = CLOSED \<Longrightarrow> \<forall>c\<in>set cs. isl (fn c) \<Longrightarrow>
   failures cb + int (length cs) < threshold cb \<Longrightarrow>
   executes cb cs =
     cb\<lparr>failures := failures cb + int (length cs),
        lastFailureTime := (if cs = [] then lastFailureTime cb else now' (last cs))\<rparr>"
proof (induction cs arbitrary: cb)
  case Nil
  then show ?case by (simp add: executes_Nil)
next
  case (Cons c cs)
  let ?cb1 = "cb\<lparr>failures := failures cb + 1, lastFailureTime := now' c\<rparr>"
  have step: "execute_call cb c = ?cb1"
    using Cons.prems by (simp add: execute_call_failure onFailure_closed)
  have "executes ?cb1 cs =
     ?cb1\<lparr>failures := failures ?cb1 + int (length cs),
        lastFailureTime := (if cs = [] then lastFailureTime ?cb1 else now' (last cs))\<rparr>"
    using Cons.prems by (intro Cons.IH) simp_all
  then show ?case
    by (simp add: executes_Cons step)
qed

lemma failures_reach_threshold:
  assumes "state cb = CLOSED" and "\<forall>c\<in>set cs. isl (fn c)"
    and "failures cb + int (length cs) = threshold cb" and "cs \<noteq> []"
  shows "executes cb cs =
     cb\<lparr>failures := threshold cb, lastFailureTime := now' (last cs),
        state := OPEN, successCount := 0\<rparr>"
proof -
  obtain bs c where cs: "cs = bs @ [c]"
    using assms(4) by (metis rev_exhaust)
  let ?cb1 = "executes cb bs"
  have mid: "?cb1 = cb\<lparr>failures := failures cb + int (length bs),
        lastFailureTime := (if bs = [] then lastFailureTime cb else now' (last bs))\<rparr>"
    using assms cs by (intro failures_below_threshold) simp_all
  have "execute_call ?cb1 c = fst (onFailure ?cb1 (now' c))"
    using assms cs by (intro execute_call_failure) (simp_all add: mid)
  then show ?thesis
    using assms cs by (simp add: executes_snoc onFailure_closed mid)
qed

lemma execute_call_config:
  "name (execute_call cb c) = name cb \<and> threshold (execute_call cb c) = threshold cb \<and>
   timeout (execute_call cb c) = timeout cb \<and> successThreshold (execute_call cb c) = successThreshold cb"
  by (simp add: execute_call_def execute_def onSuccess_def onFailure_def Let_def
      split: option.split sum.split)

lemma onSuccess_half_open:
  "state cb = HALF_OPEN \<Longrightarrow>
   fst (onSuccess cb) =
     (if successCount cb + 1 \<ge> successThreshold cb
      then cb\<lparr>failures := 0, successCount := 0, state := CLOSED\<rparr>
      else cb\<lparr>failures := 0, successCount := successCount cb + 1\<rparr>)"
  by (simp add: onSuccess_def Let_def)

lemma onFailure_half_open:
  "state cb = HALF_OPEN \<Longrightarrow>
   fst (onFailure cb t) =
     cb\<lparr>failures := failures cb + 1, lastFailureTime := t, state := OPEN, successCount := 0\<rparr>"
  by (simp add: onFailure_def Let_def)

lemma successes_below_threshold:
  "state cb = HALF_OPEN \<Longrightarrow> \<forall>c\<in>set cs. \<not> isl (fn c) \<Longrightarrow>
   successCount cb + int (length cs) < successThreshold cb \<Longrightarrow>
   executes cb cs =
     (if cs = [] then cb
      else cb\<lparr>failures := 0, successCount := successCount cb + int (length cs)\<rparr>)"
proof (induction cs arbitrary: cb)
  case Nil
  then show ?case by (simp add: executes_Nil)
next
  case (Cons c cs)
  let ?cb1 = "cb\<lparr>failures := 0, successCount := successCount cb + 1\<rparr>"
  have step: "execute_call cb c = ?cb1"
    using Cons.prems by (simp add: execute_call_success onSuccess_half_open)
  have "executes ?cb1 cs =
     (if cs = [] then ?cb1
      else ?cb1\<lparr>failures := 0, successCount := successCount ?cb1 + int (length cs)\<rparr>)"
    using Cons.prems by (intro Cons.IH) simp_all
  then show ?case
    by (simp add: executes_Cons step)
qed

lemma successes_reach_threshold:
  assumes "state cb = HALF_OPEN" and "\<forall>c\<in>set cs. \<not> isl (fn c)"
    and "successCount cb + int (length cs) = successThreshold cb" and "cs \<noteq> []"
  shows "executes cb cs = cb\<lparr>failures := 0, successCount := 0, state := CLOSED\<rparr>"
proof -
  obtain bs c where cs: "cs = bs @ [c]"
    using assms(4) by (metis rev_exhaust)
  let ?cb1 = "executes cb bs"
  have mid: "?cb1 = (if bs = [] then cb
      else cb\<lparr>failures := 0, successCount := successCount cb + int (length bs)\<rparr>)"
    using assms cs by (intro successes_below_threshold) simp_all
  have "execute_call ?cb1 c = fst (onSuccess ?cb1)"
    using assms cs by (intro execute_call_success) (simp_all add: mid)
  then show ?thesis
    using assms cs
    by (cases "bs = []") (simp_all add: executes_snoc executes_Cons executes_Nil onSuccess_half_open mid)
qed

text \<open>
  Claim C4. In the closed state every failing guarded call adds one to \<open>failures\<close> and
  every successful one sets it to 0. A run of failing calls that keeps the count below
  \<open>threshold\<close> leaves the breaker closed; the failing call with which the count reaches
  \<open>threshold\<close> opens it and \<open>lastFailureTime\<close> holds the time of that failure.
\<close>
theorem closed_failure_accounting:
  assumes "state cb = CLOSED"
  shows "breaker_of (execute cb (Inl e) fb t t') =
           (if failures cb + 1 \<ge> threshold cb
            then cb\<lparr>failures := failures cb + 1, lastFailureTime := t', state := OPEN, successCount := 0\<rparr>
            else cb\<lparr>failures := failures cb + 1, lastFailureTime := t'\<rparr>)
       \<and> breaker_of (execute cb (Inr v) fb t t') = cb\<lparr>failures := 0\<rparr>
       \<and> ((\<forall>c\<in>set cs. isl (fn c)) \<and> failures cb + int (length cs) < threshold cb \<longrightarrow>
            state (executes cb cs) = CLOSED \<and> failures (executes cb cs) = failures cb + int (length cs))
       \<and> ((\<forall>c\<in>set cs. isl (fn c)) \<and> cs \<noteq> [] \<and> failures cb + int (length cs) = threshold cb \<longrightarrow>
            state (executes cb cs) = OPEN \<and> lastFailureTime (executes cb cs) = now' (last cs))"
proof -
  have closed: "state cb \<noteq> OPEN" using assms by simp
  have a: "breaker_of (execute cb (Inl e) fb t t') = fst (onFailure cb t')"
    by (simp add: execute_passes_failure closed)
  have b: "breaker_of (execute cb (Inr v) fb t t') = fst (onSuccess cb)"
    by (simp add: execute_passes_success closed)
  show ?thesis
    using assms
    by (simp add: a b onFailure_closed onSuccess_closed failures_below_threshold
        failures_reach_threshold)
qed

theorem closed_failure_accounting_witness:
  "state (executes dbCircuit [failing 10, failing 20]) = CLOSED
   \<and> failures (executes dbCircuit [failing 10, failing 20]) = 2
   \<and> state (executes dbCircuit [failing 10, failing 20, failing 30]) = OPEN
   \<and> lastFailureTime (executes dbCircuit [failing 10, failing 20, failing 30]) = 30"
  using closed_failure_accounting [where cb = dbCircuit and cs = "[failing 10, failing 20]"
      and e = "JsError ''Error'' ''x''" and fb = None and t = 0 and t' = 0 and v = "()"]
    closed_failure_accounting [where cb = dbCircuit and cs = "[failing 10, failing 20, failing 30]"
      and e = "JsError ''Error'' ''x''" and fb = None and t = 0 and t' = 0 and v = "()"]
  by (simp add: dbCircuit_def new_CircuitBreaker_def failing_def)

lemma opened_db_eq:
  "opened_db = \<lparr> name = ''postgres'', threshold = 3, timeout = 20000, successThreshold = 2,
       state = OPEN, failures = 3, successCount = 0, lastFailureTime = 30 \<rparr>"
  by (simp add: opened_db_def dbCircuit_def new_CircuitBreaker_def failing_def executes_def
      execute_call_def execute_def onFailure_def Let_def)

lemma probing_db_eq:
  "probing_db = \<lparr> name = ''postgres'', threshold = 3, timeout = 20000, successThreshold = 2,
       state = HALF_OPEN, failures = 0, successCount = 1, lastFailureTime = 30 \<rparr>"
  by (simp add: probing_db_def opened_db_eq succeeding_def executes_def
      execute_call_def execute_def onSuccess_def Let_def)

text \<open>
  Claim C7. In the half-open state a successful guarded call adds one to \<open>successCount\<close>;
  when the count reaches \<open>successThreshold\<close> the breaker closes with \<open>failures\<close> and
  \<open>successCount\<close> both 0. A single failing call in the half-open state opens the breaker
  again, sets \<open>successCount\<close> to 0 and stores the time of the failure.
\<close>
theorem half_open_accounting:
  assumes "state cb = HALF_OPEN"
  shows "breaker_of (execute cb (Inr v) fb t t') =
           (if successCount cb + 1 \<ge> successThreshold cb
            then cb\<lparr>failures := 0, successCount := 0, state := CLOSED\<rparr>
            else cb\<lparr>failures := 0, successCount := successCount cb + 1\<rparr>)
       \<and> breaker_of (execute cb (Inl e) fb t t') =
           cb\<lparr>failures := failures cb + 1, lastFailureTime := t', state := OPEN, successCount := 0\<rparr>
       \<and> ((\<forall>c\<in>set cs. \<not> isl (fn c)) \<and> successCount cb + int (length cs) < successThreshold cb \<longrightarrow>
            state (executes cb cs) = HALF_OPEN
            \<and> successCount (executes cb cs) = successCount cb + int (length cs))
       \<and> ((\<forall>c\<in>set cs. \<not> isl (fn c)) \<and> cs \<noteq> []
            \<and> successCount cb + int (length cs) = successThreshold cb \<longrightarrow>
            executes cb cs = cb\<lparr>failures := 0, successCount := 0, state := CLOSED\<rparr>)"
proof -
  have passing: "state cb \<noteq> OPEN" using assms by simp
  have a: "breaker_of (execute cb (Inl e) fb t t') = fst (onFailure cb t')"
    by (simp add: execute_passes_failure passing)
  have b: "breaker_of (execute cb (Inr v) fb t t') = fst (onSuccess cb)"
    by (simp add: execute_passes_success passing)
  show ?thesis
    using assms
    by (simp add: a b onFailure_half_open onSuccess_half_open successes_below_threshold
        successes_reach_threshold)
qed

theorem half_open_accounting_witness:
  "state probing_db = HALF_OPEN
   \<and> breaker_of (execute probing_db (Inr ()) None 20050 20051) =
       probing_db\<lparr>failures := 0, successCount := 0, state := CLOSED\<rparr>
   \<and> breaker_of (execute probing_db (Inl (JsError ''Error'' ''x'') :: js_error + unit) None 20050 20051) =
       probing_db\<lparr>failures := 1, lastFailureTime := 20051, state := OPEN, successCount := 0\<rparr>
   \<and> executes probing_db [succeeding 20050] =
       probing_db\<lparr>failures := 0, successCount := 0, state := CLOSED\<rparr>"
  using half_open_accounting [where cb = probing_db and cs = "[succeeding 20050]"
      and e = "JsError ''Error'' ''x''" and fb = None and t = 20050 and t' = 20051 and v = "()"]
  by (simp add: probing_db_eq succeeding_def)

text \<open>
  Claim C5. While the breaker is open and \<open>now - lastFailureTime\<close> does not exceed
  \<open>timeout\<close>, \<open>execute\<close> does not invoke the guarded function and leaves the breaker as
  it is: with a fallback it returns what the fallback yields, without one it throws the
  open-circuit error.
\<close>
theorem open_fast_fail:
  assumes "state cb = OPEN" and "t - lastFailureTime cb \<le> timeout cb"
  shows "execute cb f fb t t' =
           (case fb of Some r \<Rightarrow> (r, cb, [Call_fallback])
            | None \<Rightarrow> (Inl (open_error cb), cb, []))
       \<and> Call_fn \<notin> set (effects_of (execute cb f fb t t'))
       \<and> count_list (effects_of (execute cb f fb t t')) Call_fn = 0"
  using assms by (simp add: execute_def split: option.split)

theorem open_fast_fail_witness:
  "state opened_db = OPEN \<and> 20030 - lastFailureTime opened_db \<le> timeout opened_db
   \<and> execute opened_db (Inr ()) None 20030 20030 =
       (Inl (JsError ''Error'' ''Circuit postgres is OPEN''), opened_db, [])
   \<and> execute opened_db (Inr ()) (Some (Inr ())) 20030 20030 = (Inr (), opened_db, [Call_fallback])"
  using open_fast_fail [where cb = opened_db and f = "Inr ()" and fb = None and t = 20030 and t' = 20030]
    open_fast_fail [where cb = opened_db and f = "Inr ()" and fb = "Some (Inr ())" and t = 20030 and t' = 20030]
  by (simp add: opened_db_eq open_error_def)

lemma count_passing:
  "state cb \<noteq> OPEN \<Longrightarrow> count_list (effects_of (execute cb f fb t t')) Call_fn = 1"
  by (cases f)
    (simp_all add: execute_passes_failure execute_passes_success onFailure_def onSuccess_def
      Let_def split: option.split)

lemma execute_probe:
  "state cb = OPEN \<Longrightarrow> t - lastFailureTime cb > timeout cb \<Longrightarrow>
   execute cb f fb t t' =
     (case execute (cb\<lparr>state := HALF_OPEN\<rparr>) f fb t t' of
        (r, cb', es) \<Rightarrow> (r, cb', Logger_info (half_open_message cb) # es))"
  by (simp add: execute_def half_open_message_def split: sum.split option.split prod.split)

lemma probe_success:
  "state cb = OPEN \<Longrightarrow> t - lastFailureTime cb > timeout cb \<Longrightarrow>
   execute cb (Inr v) fb t t' =
     (Inr v,
      (if successCount cb + 1 \<ge> successThreshold cb
       then cb\<lparr>state := CLOSED, failures := 0, successCount := 0\<rparr>
       else cb\<lparr>state := HALF_OPEN, failures := 0, successCount := successCount cb + 1\<rparr>),
      [Logger_info (half_open_message cb), Call_fn] @
      (if successCount cb + 1 \<ge> successThreshold cb
       then [Logger_info (''Circuit '' @ name cb @ '': CLOSED '' @ em_dash @ '' recovered'')]
       else []))"
  by (simp add: execute_def onSuccess_def Let_def half_open_message_def)

lemma probe_failure:
  "state cb = OPEN \<Longrightarrow> t - lastFailureTime cb > timeout cb \<Longrightarrow>
   execute cb (Inl e) fb t t' =
     ((case fb of Some r \<Rightarrow> r | None \<Rightarrow> Inl e),
      cb\<lparr>state := OPEN, failures := failures cb + 1, lastFailureTime := t', successCount := 0\<rparr>,
      [Logger_info (half_open_message cb), Call_fn,
       Logger_error (''Circuit '' @ name cb @ '': OPEN '' @ em_dash @ '' failing fast''),
       Emit ''open''] @ (case fb of Some r \<Rightarrow> [Call_fallback] | None \<Rightarrow> []))"
  by (simp add: execute_def onFailure_def Let_def half_open_message_def split: option.split)

text \<open>
  Claim C6. When the breaker is open and \<open>now - lastFailureTime\<close> exceeds \<open>timeout\<close>,
  \<open>execute\<close> first sets the state to half-open (and logs it), then invokes the guarded
  function exactly once, and treats its outcome by the rules of the half-open state: after
  a success the breaker is half-open with one more success counted, or closed with both
  counters 0 if that reaches \<open>successThreshold\<close>; after a failure it is open again,
  whatever the count of failures, with the time of this failure.
\<close>
theorem open_timeout_probe:
  assumes "state cb = OPEN" and "t - lastFailureTime cb > timeout cb"
  shows "execute cb f fb t t' =
           (case execute (cb\<lparr>state := HALF_OPEN\<rparr>) f fb t t' of
              (r, cb', es) \<Rightarrow> (r, cb', Logger_info (half_open_message cb) # es))
       \<and> take 2 (effects_of (execute cb f fb t t')) = [Logger_info (half_open_message cb), Call_fn]
       \<and> count_list (effects_of (execute cb f fb t t')) Call_fn = 1
       \<and> execute cb (Inr v) fb t t' =
           (Inr v,
            (if successCount cb + 1 \<ge> successThreshold cb
             then cb\<lparr>state := CLOSED, failures := 0, successCount := 0\<rparr>
             else cb\<lparr>state := HALF_OPEN, failures := 0, successCount := successCount cb + 1\<rparr>),
            [Logger_info (half_open_message cb), Call_fn] @
            (if successCount cb + 1 \<ge> successThreshold cb
             then [Logger_info (''Circuit '' @ name cb @ '': CLOSED '' @ em_dash @ '' recovered'')]
             else []))
       \<and> execute cb (Inl e) fb t t' =
           ((case fb of Some r \<Rightarrow> r | None \<Rightarrow> Inl e),
            cb\<lparr>state := OPEN, failures := failures cb + 1, lastFailureTime := t', successCount := 0\<rparr>,
            [Logger_info (half_open_message cb), Call_fn,
             Logger_error (''Circuit '' @ name cb @ '': OPEN '' @ em_dash @ '' failing fast''),
             Emit ''open''] @ (case fb of Some r \<Rightarrow> [Call_fallback] | None \<Rightarrow> []))"
proof -
  let ?h = "execute (cb\<lparr>state := HALF_OPEN\<rparr>) f fb t t'"
  have e: "execute cb f fb t t' =
      (case ?h of (r, cb', es) \<Rightarrow> (r, cb', Logger_info (half_open_message cb) # es))"
    using assms by (rule execute_probe)
  have c: "count_list (effects_of ?h) Call_fn = 1"
    by (rule count_passing) simp
  have h: "take 1 (effects_of ?h) = [Call_fn]"
    by (cases f) (simp_all add: execute_passes_failure execute_passes_success)
  obtain r cb' es where p: "?h = (r, cb', es)"
    by (cases ?h)
  have two: "take 2 (effects_of (execute cb f fb t t')) = [Logger_info (half_open_message cb), Call_fn]"
    using h by (simp add: e p numeral_2_eq_2)
  have once: "count_list (effects_of (execute cb f fb t t')) Call_fn = 1"
    using c by (simp add: e p)
  show ?thesis
    by (intro conjI) (rule e, rule two, rule once, rule probe_success [OF assms],
        rule probe_failure [OF assms])
qed

theorem open_timeout_probe_witness:
  "state opened_db = OPEN \<and> 20031 - lastFailureTime opened_db > timeout opened_db
   \<and> execute opened_db (Inr ()) None 20031 20031 =
       (Inr (),
        \<lparr> name = ''postgres'', threshold = 3, timeout = 20000, successThreshold = 2,
          state = HALF_OPEN, failures = 0, successCount = 1, lastFailureTime = 30 \<rparr>,
        [Logger_info (''Circuit postgres: HALF_OPEN '' @ em_dash @ '' testing''), Call_fn])
   \<and> execute opened_db (Inl (JsError ''Error'' ''down'') :: js_error + unit) None 20031 20040 =
       (Inl (JsError ''Error'' ''down''),
        \<lparr> name = ''postgres'', threshold = 3, timeout = 20000, successThreshold = 2,
          state = OPEN, failures = 4, successCount = 0, lastFailureTime = 20040 \<rparr>,
        [Logger_info (''Circuit postgres: HALF_OPEN '' @ em_dash @ '' testing''), Call_fn,
         Logger_error (''Circuit postgres: OPEN '' @ em_dash @ '' failing fast''), Emit ''open''])"
proof -
  have o: "state opened_db = OPEN" and w: "20031 - lastFailureTime opened_db > timeout opened_db"
    by (simp_all add: opened_db_eq)
  note p = open_timeout_probe [OF o w, where f = "Inr ()" and fb = None and t' = 20031
      and v = "()" and e = "JsError ''Error'' ''down''"]
  note q = open_timeout_probe [OF o w, where f = "Inr ()" and fb = None and t' = 20040
      and v = "()" and e = "JsError ''Error'' ''down''"]
  have s: "execute opened_db (Inr ()) None 20031 20031 =
       (Inr (),
        \<lparr> name = ''postgres'', threshold = 3, timeout = 20000, successThreshold = 2,
          state = HALF_OPEN, failures = 0, successCount = 1, lastFailureTime = 30 \<rparr>,
        [Logger_info (''Circuit postgres: HALF_OPEN '' @ em_dash @ '' testing''), Call_fn])"
    using p [THEN conjunct2, THEN conjunct2, THEN conjunct2, THEN conjunct1]
    by (simp add: opened_db_eq half_open_message_def)
  have f: "execute opened_db (Inl (JsError ''Error'' ''down'') :: js_error + unit) None 20031 20040 =
       (Inl (JsError ''Error'' ''down''),
        \<lparr> name = ''postgres'', threshold = 3, timeout = 20000, successThreshold = 2,
          state = OPEN, failures = 4, successCount = 0, lastFailureTime = 20040 \<rparr>,
        [Logger_info (''Circuit postgres: HALF_OPEN '' @ em_dash @ '' testing''), Call_fn,
         Logger_error (''Circuit postgres: OPEN '' @ em_dash @ '' failing fast''), Emit ''open''])"
    using q [THEN conjunct2, THEN conjunct2, THEN conjunct2, THEN conjunct2]
    by (simp add: opened_db_eq half_open_message_def)
  show ?thesis
    using o w s f by blast
qed

lemma getState_iterate: "((snd \<circ> getState) ^^ k) cb = cb"
  by (induction k) (simp_all add: getState_def)

text \<open>
  Claim C10. \<open>getState\<close> returns the state and changes no field of the breaker, however
  often it is called. It takes no time into account: an open breaker whose timeout has
  elapsed is still reported open, and only the next \<open>execute\<close> leaves the open state.
\<close>
theorem getState_reads_only:
  "snd (getState cb) = cb \<and> fst (getState cb) = state cb
   \<and> ((snd \<circ> getState) ^^ k) cb = cb
   \<and> (state cb = OPEN \<and> t - lastFailureTime cb > timeout cb \<longrightarrow>
        fst (getState (((snd \<circ> getState) ^^ k) cb)) = OPEN
        \<and> state (breaker_of (execute (snd (getState cb)) (Inr v) fb t t')) \<noteq> OPEN
        \<and> hd (effects_of (execute (snd (getState cb)) f fb t t')) = Logger_info (half_open_message cb))"
proof -
  have "state cb = OPEN \<Longrightarrow> t - lastFailureTime cb > timeout cb \<Longrightarrow>
      hd (effects_of (execute cb f fb t t')) = Logger_info (half_open_message cb)"
    by (simp add: execute_probe split: prod.split)
  moreover have "state cb = OPEN \<Longrightarrow> t - lastFailureTime cb > timeout cb \<Longrightarrow>
      state (breaker_of (execute cb (Inr v) fb t t')) \<noteq> OPEN"
    by (simp add: execute_def onSuccess_def Let_def)
  ultimately show ?thesis
    by (simp add: getState_iterate) (simp add: getState_def)
qed

theorem getState_reads_only_witness:
  "state opened_db = OPEN \<and> 20031 - lastFailureTime opened_db > timeout opened_db
   \<and> getState opened_db = (OPEN, opened_db)
   \<and> fst (getState (((snd \<circ> getState) ^^ 5) opened_db)) = OPEN
   \<and> state (breaker_of (execute (snd (getState opened_db)) (Inr ()) None 20031 20031)) = HALF_OPEN"
  using getState_reads_only [where cb = opened_db and t = 20031 and k = 5 and v = "()" and fb = None
      and t' = 20031 and f = "Inr ()"]
  by (simp add: opened_db_eq getState_def execute_def onSuccess_def Let_def)




section \<open>Properties of the write queue\<close>

lemma length_settle [simp]: "length (settle ps e) = length ps"
  by (cases e) simp_all

lemma length_settle_all [simp]: "length (settle_all ps es) = length ps"
  unfolding settle_all_def by (induction es arbitrary: ps) simp_all

lemma settle_all_Nil [simp]: "settle_all ps [] = ps"
  by (simp add: settle_all_def)

lemma settle_all_Cons [simp]: "settle_all ps (e # es) = settle_all (settle ps e) es"
  by (simp add: settle_all_def)

lemma settle_other: "promise_of e \<noteq> Some h \<Longrightarrow> settle ps e ! h = ps ! h"
  by (cases e) auto

lemma settle_all_other:
  "\<forall>e \<in> set es. promise_of e \<noteq> Some h \<Longrightarrow> settle_all ps es ! h = ps ! h"
  by (induction es arbitrary: ps) (simp_all add: settle_other)

lemma settle_pending:
  "promise_of e = Some h \<Longrightarrow> h < length ps \<Longrightarrow> ps ! h = Pending \<Longrightarrow>
   settle ps e = ps[h := outcome_of e]"
  by (cases e) auto

lemma settle_all_settled:
  assumes "distinct (map promise_of es)"
    and "\<forall>e \<in> set es. \<exists>h. promise_of e = Some h \<and> h < length ps \<and> ps ! h = Pending"
    and "e \<in> set es" and "promise_of e = Some h"
  shows "settle_all ps es ! h = outcome_of e"
  using assms
proof (induction es arbitrary: ps)
  case Nil
  then show ?case by simp
next
  case (Cons a es)
  obtain ha where ha: "promise_of a = Some ha" "ha < length ps" "ps ! ha = Pending"
    using Cons.prems(2) by auto
  have step: "settle ps a = ps[ha := outcome_of a]"
    using ha by (rule settle_pending)
  have fresh: "\<forall>e' \<in> set es. promise_of e' \<noteq> Some ha"
    using Cons.prems(1) ha(1) by (metis distinct.simps(2) image_eqI list.simps(9) set_map)
  show ?case
  proof (cases "e = a")
    case True
    then have "h = ha" using Cons.prems(4) ha(1) by simp
    then show ?thesis
      using True fresh ha(2) by (simp add: step settle_all_other)
  next
    case False
    then have mem: "e \<in> set es" using Cons.prems(3) by simp
    have "\<forall>e' \<in> set es. \<exists>h'. promise_of e' = Some h' \<and> h' < length (ps[ha := outcome_of a])
        \<and> ps[ha := outcome_of a] ! h' = Pending"
    proof
      fix e' assume e': "e' \<in> set es"
      then obtain h' where h': "promise_of e' = Some h'" "h' < length ps" "ps ! h' = Pending"
        using Cons.prems(2) by auto
      have "h' \<noteq> ha" using fresh e' h'(1) by auto
      then show "\<exists>h'. promise_of e' = Some h' \<and> h' < length (ps[ha := outcome_of a])
          \<and> ps[ha := outcome_of a] ! h' = Pending"
        using h' by auto
    qed
    moreover have "distinct (map promise_of es)" using Cons.prems(1) by simp
    ultimately have "settle_all (ps[ha := outcome_of a]) es ! h = outcome_of e"
      using mem Cons.prems(4) by (intro Cons.IH) auto
    then show ?thesis by (simp add: step)
  qed
qed

lemma map_zip_index:
  "map f (zip xs [0..<length xs]) = map (\<lambda>i. f (xs ! i, i)) [0..<length xs]"
  by (rule nth_equalityI) simp_all

lemma flush_skips:
  "flushing wq \<or> queue wq = [] \<Longrightarrow> flush_start wq = Skipped"
  by (auto simp add: flush_start_def)

lemma flush_start_drains:
  "\<not> flushing wq \<Longrightarrow> queue wq \<noteq> [] \<Longrightarrow>
   flush_start wq =
     (if creates_of (take BATCH_SIZE (queue wq)) \<noteq> []
      then Awaiting (wq\<lparr>flushing := True, queue := drop BATCH_SIZE (queue wq)\<rparr>)
             (take BATCH_SIZE (queue wq))
             (insert_sql (creates_of (take BATCH_SIZE (queue wq))))
             (values_of (creates_of (take BATCH_SIZE (queue wq))))
      else Finished (wq\<lparr>queue := drop BATCH_SIZE (queue wq)\<rparr>) (take BATCH_SIZE (queue wq)))"
  by (simp add: flush_start_def creates_of_def Let_def)

lemma drained_eq:
  "drained wq = (if flushing wq \<or> queue wq = [] then [] else take BATCH_SIZE (queue wq))"
  by (auto simp add: drained_def flush_skips flush_start_drains)

lemma flush_queue:
  "fst (flush wq q) =
     (if flushing wq \<or> queue wq = [] then wq else wq\<lparr>queue := drop BATCH_SIZE (queue wq)\<rparr>)"
  by (auto simp add: flush_def flush_skips flush_start_drains flush_resume_def Let_def
      split: prod.split)

lemma flush_effects_ok:
  assumes "\<not> flushing wq" and "creates = creates_of (take BATCH_SIZE (queue wq))"
    and "creates \<noteq> []" and "q (insert_sql creates) (values_of creates) = Inr rows"
  shows "snd (flush wq q) =
     Query (insert_sql creates) (values_of creates) #
       map (\<lambda>i. Resolve (promise (creates ! i)) (js_index rows i)) [0..<length creates]"
proof -
  have ne: "queue wq \<noteq> []" using assms(2,3) by (auto simp add: creates_of_def)
  show ?thesis
    using assms ne
    by (simp add: flush_def flush_start_drains flush_resume_def Let_def map_zip_index
        creates_of_def [symmetric])
qed

lemma flush_effects_failed:
  assumes "\<not> flushing wq" and "batch = take BATCH_SIZE (queue wq)"
    and "creates = creates_of batch"
    and "creates \<noteq> []" and "q (insert_sql creates) (values_of creates) = Inl err"
  shows "snd (flush wq q) =
     Query (insert_sql creates) (values_of creates) # map (\<lambda>j. Reject (promise j) err) batch"
proof -
  have ne: "queue wq \<noteq> []" using assms(2,3,4) by (auto simp add: creates_of_def)
  show ?thesis
    using assms ne
    by (simp add: flush_def flush_start_drains flush_resume_def Let_def)
qed

lemma pending_jobs_take: "pending_jobs js ps \<Longrightarrow> pending_jobs (take n js) ps"
  by (auto simp add: pending_jobs_def distinct_take take_map [symmetric] dest: in_set_takeD)

lemma pending_jobs_filter: "pending_jobs js ps \<Longrightarrow> pending_jobs (filter P js) ps"
  by (auto simp add: pending_jobs_def distinct_map_filter)

lemma pending_jobs_creates:
  "pending_jobs js ps \<Longrightarrow> pending_jobs (creates_of (take n js)) ps"
  unfolding creates_of_def by (intro pending_jobs_filter pending_jobs_take)

lemma distinct_map_Some: "distinct (map (\<lambda>x. Some (f x)) xs) = distinct (map f xs)"
  by (induction xs) auto

lemma rejects_settle:
  assumes "pending_jobs js ps" and "j \<in> set js"
  shows "settle_all ps (map (\<lambda>j. Reject (promise j) err) js) ! promise j = Rejected err"
proof -
  let ?es = "map (\<lambda>j. Reject (promise j) err) js"
  have "distinct (map promise_of ?es)"
    using assms(1) by (simp add: pending_jobs_def comp_def distinct_map_Some)
  moreover have "\<forall>e \<in> set ?es. \<exists>h. promise_of e = Some h \<and> h < length ps \<and> ps ! h = Pending"
    using assms(1) by (auto simp add: pending_jobs_def)
  moreover have "Reject (promise j) err \<in> set ?es" using assms(2) by auto
  ultimately have "settle_all ps ?es ! promise j = outcome_of (Reject (promise j) err)"
    by (rule settle_all_settled) simp
  then show ?thesis by simp
qed

lemma resolves_settle:
  assumes "pending_jobs js ps" and "i < length js"
  shows "settle_all ps (map (\<lambda>i. Resolve (promise (js ! i)) (js_index rows i)) [0..<length js])
           ! promise (js ! i) = Fulfilled (js_index rows i)"
proof -
  let ?es = "map (\<lambda>i. Resolve (promise (js ! i)) (js_index rows i)) [0..<length js]"
  have "map promise_of ?es = map (\<lambda>x. Some (promise x)) js"
    by (rule nth_equalityI) simp_all
  then have "distinct (map promise_of ?es)"
    using assms(1) by (simp add: pending_jobs_def distinct_map_Some)
  moreover have "\<forall>e \<in> set ?es. \<exists>h. promise_of e = Some h \<and> h < length ps \<and> ps ! h = Pending"
    using assms(1) by (auto simp add: pending_jobs_def)
  moreover have "Resolve (promise (js ! i)) (js_index rows i) \<in> set ?es"
    using assms(2) by auto
  ultimately have "settle_all ps ?es ! promise (js ! i)
      = outcome_of (Resolve (promise (js ! i)) (js_index rows i))"
    by (rule settle_all_settled) simp
  then show ?thesis by simp
qed

lemma others_untouched:
  assumes "distinct (map promise (js @ ks))" and "k \<in> set ks"
    and "\<forall>e \<in> set es. \<forall>h. promise_of e = Some h \<longrightarrow> h \<in> promise ` set js"
  shows "settle_all ps es ! promise k = ps ! promise k"
proof -
  have "promise k \<notin> promise ` set js" using assms(1,2) by auto
  then have "\<forall>e \<in> set es. promise_of e \<noteq> Some (promise k)"
    using assms(3) by blast
  then show ?thesis by (rule settle_all_other)
qed

lemma mixed_queue_eq:
  "mixed_queue =
     (\<lparr> queue = [job (create_request ''Ann'' ''ann@x.org'') 0, job update_request 1,
                  job (create_request ''Bob'' ''bob@x.org'') 2],
        flushing = False \<rparr>,
      [Pending, Pending, Pending])"
  by (simp add: mixed_queue_def new_WriteQueue_def enqueue_def job_def Let_def)

lemma mixed_creates:
  "creates_of (take BATCH_SIZE (queue (fst mixed_queue))) =
     [job (create_request ''Ann'' ''ann@x.org'') 0, job (create_request ''Bob'' ''bob@x.org'') 2]"
  by (simp add: mixed_queue_eq BATCH_SIZE_def creates_of_def job_def create_request_def
      update_request_def)

lemma mixed_pending: "pending_jobs (queue (fst mixed_queue)) (snd mixed_queue)"
  by (simp add: mixed_queue_eq pending_jobs_def job_def)

lemma mixed_flush_up:
  "flush (fst mixed_queue) shard_up =
     (\<lparr> queue = [], flushing = False \<rparr>,
      [Query (insert_sql [job (create_request ''Ann'' ''ann@x.org'') 0,
                          job (create_request ''Bob'' ''bob@x.org'') 2])
         [Some ''Ann'', Some ''ann@x.org'', Some ''Bob'', Some ''bob@x.org''],
       Resolve 0 (Some ann_row), Resolve 2 (Some bob_row)])"
  by (simp add: mixed_queue_eq flush_def flush_start_def flush_resume_def BATCH_SIZE_def Let_def
      job_def create_request_def update_request_def shard_up_def values_of_def js_index_def)

lemma mixed_flush_down:
  "flush (fst mixed_queue) shard_down =
     (\<lparr> queue = [], flushing = False \<rparr>,
      [Query (insert_sql [job (create_request ''Ann'' ''ann@x.org'') 0,
                          job (create_request ''Bob'' ''bob@x.org'') 2])
         [Some ''Ann'', Some ''ann@x.org'', Some ''Bob'', Some ''bob@x.org''],
       Reject 0 (JsError ''Error'' ''Connection terminated unexpectedly''),
       Reject 1 (JsError ''Error'' ''Connection terminated unexpectedly''),
       Reject 2 (JsError ''Error'' ''Connection terminated unexpectedly'')])"
  by (simp add: mixed_queue_eq flush_def flush_start_def flush_resume_def BATCH_SIZE_def Let_def
      job_def create_request_def update_request_def shard_down_def values_of_def)

lemma insert_sql_two:
  "insert_sql [job (create_request ''Ann'' ''ann@x.org'') 0, job (create_request ''Bob'' ''bob@x.org'') 2] =
     ''INSERT INTO users (name, email) VALUES ($1, $2),($3, $4)'' @ [CHR 0x0A] @
     ''           RETURNING id, name, email, created_at''"
  by code_simp

text \<open>
  Claim C1 says that every intent accepted by \<open>enqueue\<close>, of any kind, is settled exactly
  once when its batch is processed. The code does this for creates, and for every kind when
  the query fails, but not for an update or delete in a batch whose query succeeds: the
  update between the two creates is drained with them, the two creates are resolved, and
  the update's promise is still pending while the queue is empty, so that no later tick
  reaches it.
\<close>
theorem update_intent_left_pending:
  "queue (fst mixed_queue) ! 1 = job update_request 1
   \<and> snd mixed_queue ! 1 = Pending
   \<and> fst (flush (fst mixed_queue) shard_up) = \<lparr> queue = [], flushing = False \<rparr>
   \<and> tl (snd (flush (fst mixed_queue) shard_up)) = [Resolve 0 (Some ann_row), Resolve 2 (Some bob_row)]
   \<and> settle_all (snd mixed_queue) (snd (flush (fst mixed_queue) shard_up)) =
       [Fulfilled (Some ann_row), Pending, Fulfilled (Some bob_row)]
   \<and> fst (ticks 3 (fst mixed_queue) shard_up) = [queue (fst mixed_queue), [], []]
   \<and> snd (snd (ticks 3 (fst mixed_queue) shard_up)) = snd (flush (fst mixed_queue) shard_up)"
  by (simp add: mixed_flush_up numeral_3_eq_3 drained_eq BATCH_SIZE_def)
    (simp add: mixed_queue_eq flush_def flush_start_def)

lemma values_of_nth:
  "i < length js \<Longrightarrow>
   values_of js ! (2 * i) = name_p (payload (js ! i)) \<and>
   values_of js ! (2 * i + 1) = email_p (payload (js ! i))"
proof (induction js arbitrary: i)
  case Nil
  then show ?case by simp
next
  case (Cons a js)
  show ?case
  proof (cases i)
    case 0
    then show ?thesis by (simp add: values_of_def)
  next
    case (Suc k)
    then have "k < length js" using Cons.prems by simp
    then have "values_of js ! (2 * k) = name_p (payload (js ! k)) \<and>
        values_of js ! (2 * k + 1) = email_p (payload (js ! k))"
      by (rule Cons.IH)
    then show ?thesis using Suc by (simp add: values_of_def)
  qed
qed

text \<open>
  Claim C2. When the query for a drained batch succeeds with \<open>rows\<close>, the trace of
  \<open>flush\<close> is the query followed by one \<open>resolve\<close> per create, in order, the \<open>i\<close>-th
  create receiving \<open>rows[i]\<close>; its promise is then fulfilled with that row. The \<open>i\<close>-th
  create also supplies the \<open>i\<close>-th pair of parameters of the statement.
\<close>
theorem creates_resolve_by_position:
  assumes "\<not> flushing wq"
    and "creates = creates_of (take BATCH_SIZE (queue wq))"
    and "i < length creates"
    and "query (insert_sql creates) (values_of creates) = Inr rows"
  shows "snd (flush wq query) =
           Query (insert_sql creates) (values_of creates) #
             map (\<lambda>n. Resolve (promise (creates ! n)) (js_index rows n)) [0..<length creates]
       \<and> snd (flush wq query) ! Suc i = Resolve (promise (creates ! i)) (js_index rows i)
       \<and> (i < length rows \<longrightarrow> js_index rows i = Some (rows ! i))
       \<and> (pending_jobs (queue wq) ps \<longrightarrow>
            settle_all ps (snd (flush wq query)) ! promise (creates ! i) = Fulfilled (js_index rows i))
       \<and> values_of creates ! (2 * i) = name_p (payload (creates ! i))
       \<and> values_of creates ! (2 * i + 1) = email_p (payload (creates ! i))"
proof -
  have ne: "creates \<noteq> []" using assms(3) by auto
  have es: "snd (flush wq query) =
           Query (insert_sql creates) (values_of creates) #
             map (\<lambda>n. Resolve (promise (creates ! n)) (js_index rows n)) [0..<length creates]"
    using assms(1,2) ne assms(4) by (rule flush_effects_ok)
  have nth: "snd (flush wq query) ! Suc i = Resolve (promise (creates ! i)) (js_index rows i)"
    using assms(3) by (simp add: es)
  have heap: "settle_all ps (snd (flush wq query)) ! promise (creates ! i) = Fulfilled (js_index rows i)"
    if "pending_jobs (queue wq) ps"
  proof -
    have "pending_jobs creates ps"
      unfolding assms(2) using that by (rule pending_jobs_creates)
    then show ?thesis
      using assms(3) by (simp add: es resolves_settle)
  qed
  have idx: "i < length rows \<longrightarrow> js_index rows i = Some (rows ! i)"
    by (simp add: js_index_def)
  from es nth idx heap values_of_nth [OF assms(3)] show ?thesis
    by blast
qed

theorem creates_resolve_by_position_witness:
  "\<not> flushing (fst mixed_queue)
   \<and> (1::nat) < length (creates_of (take BATCH_SIZE (queue (fst mixed_queue))))
   \<and> shard_up (insert_sql (creates_of (take BATCH_SIZE (queue (fst mixed_queue)))))
        (values_of (creates_of (take BATCH_SIZE (queue (fst mixed_queue))))) = Inr [ann_row, bob_row]
   \<and> pending_jobs (queue (fst mixed_queue)) (snd mixed_queue)
   \<and> settle_all (snd mixed_queue) (snd (flush (fst mixed_queue) shard_up)) ! 2 = Fulfilled (Some bob_row)"
proof -
  let ?cs = "creates_of (take BATCH_SIZE (queue (fst mixed_queue)))"
  have a: "\<not> flushing (fst mixed_queue)" by (simp add: mixed_queue_eq)
  have b: "(1::nat) < length ?cs" by (simp add: mixed_creates)
  have c: "shard_up (insert_sql ?cs) (values_of ?cs) = Inr [ann_row, bob_row]"
    by (simp add: shard_up_def)
  note t = creates_resolve_by_position [where wq = "fst mixed_queue" and creates = ?cs and i = 1
      and query = shard_up and rows = "[ann_row, bob_row]" and ps = "snd mixed_queue",
      OF a refl b c]
  have "settle_all (snd mixed_queue) (snd (flush (fst mixed_queue) shard_up)) ! promise (?cs ! 1)
      = Fulfilled (js_index [ann_row, bob_row] 1)"
    using t mixed_pending by blast
  then show ?thesis
    using a b c mixed_pending by (simp add: mixed_creates job_def js_index_def)
qed

lemma flush_effects_promises:
  "\<forall>e \<in> set (snd (flush wq q)). \<forall>h. promise_of e = Some h \<longrightarrow>
     h \<in> promise ` set (take BATCH_SIZE (queue wq))"
  by (auto simp add: flush_def flush_start_def flush_resume_def Let_def
      split: sum.split dest!: set_zip_leftD)

lemma remaining_pending:
  assumes "pending_jobs (queue wq) ps"
  shows "pending_jobs (queue (fst (flush wq q))) (settle_all ps (snd (flush wq q)))"
proof (cases "flushing wq \<or> queue wq = []")
  case True
  then show ?thesis using assms by (simp add: flush_def flush_skips)
next
  case False
  let ?b = "take BATCH_SIZE (queue wq)" and ?r = "drop BATCH_SIZE (queue wq)"
  have d: "distinct (map promise (?b @ ?r))"
    using assms by (simp add: pending_jobs_def)
  have same: "settle_all ps (snd (flush wq q)) ! promise k = ps ! promise k" if "k \<in> set ?r" for k
    using d that flush_effects_promises by (rule others_untouched)
  have "distinct (map promise ?r)"
    using assms by (simp add: pending_jobs_def distinct_drop drop_map [symmetric])
  moreover have "\<forall>k \<in> set ?r. promise k < length ps \<and> ps ! promise k = Pending"
    using assms by (auto simp add: pending_jobs_def dest: in_set_dropD)
  ultimately show ?thesis
    using False same by (simp add: pending_jobs_def flush_queue)
qed

text \<open>
  Claim C3. When the query for a drained batch fails with \<open>err\<close>, the trace of \<open>flush\<close>
  is the one query followed by \<open>reject(err)\<close> for every job of the batch, so each of their
  promises is rejected with \<open>err\<close>. The queue afterwards is the part that was not drained
  (no job of the batch is in it), the jobs in it are still pending, \<open>flushing\<close> is false
  again and the next tick drains the following jobs; the queue is the same as after any
  other outcome of the query, and jobs enqueued while the query was in flight stay queued.
  The trace has no effect on the timer.
\<close>
theorem failed_batch_rejects_all:
  assumes "\<not> flushing wq"
    and "batch = take BATCH_SIZE (queue wq)"
    and "creates = creates_of batch"
    and "creates \<noteq> []"
    and "query (insert_sql creates) (values_of creates) = Inl err"
  shows "snd (flush wq query) =
           Query (insert_sql creates) (values_of creates) # map (\<lambda>j. Reject (promise j) err) batch
       \<and> (pending_jobs (queue wq) ps \<longrightarrow>
            (\<forall>j \<in> set batch. settle_all ps (snd (flush wq query)) ! promise j = Rejected err)
            \<and> pending_jobs (queue (fst (flush wq query))) (settle_all ps (snd (flush wq query))))
       \<and> fst (flush wq query) = wq\<lparr>queue := drop BATCH_SIZE (queue wq)\<rparr>
       \<and> queue wq = batch @ queue (fst (flush wq query))
       \<and> (pending_jobs (queue wq) ps \<longrightarrow> set batch \<inter> set (queue (fst (flush wq query))) = {})
       \<and> \<not> flushing (fst (flush wq query))
       \<and> drained (fst (flush wq query)) = take BATCH_SIZE (drop BATCH_SIZE (queue wq))
       \<and> fst (flush wq query) = fst (flush wq query')
       \<and> flush_resume later batch (Inl err) =
           (later\<lparr>flushing := False\<rparr>, map (\<lambda>j. Reject (promise j) err) batch)"
proof -
  have ne: "queue wq \<noteq> []" using assms(2,3,4) by (auto simp add: creates_of_def)
  have es: "snd (flush wq query) =
      Query (insert_sql creates) (values_of creates) # map (\<lambda>j. Reject (promise j) err) batch"
    using assms by (rule flush_effects_failed)
  have rej: "settle_all ps (snd (flush wq query)) ! promise j = Rejected err"
    if "pending_jobs (queue wq) ps" and "j \<in> set batch" for j
  proof -
    have "pending_jobs batch ps"
      unfolding assms(2) using that(1) by (rule pending_jobs_take)
    then show ?thesis using that(2) by (simp add: es rejects_settle)
  qed
  have st: "fst (flush wq q) = wq\<lparr>queue := drop BATCH_SIZE (queue wq)\<rparr>" for q
    using assms(1) ne by (simp add: flush_queue)
  have dr: "drained (fst (flush wq query)) = take BATCH_SIZE (drop BATCH_SIZE (queue wq))"
    using assms(1) by (simp add: st drained_eq)
  have heap: "pending_jobs (queue wq) ps \<longrightarrow>
      (\<forall>j \<in> set batch. settle_all ps (snd (flush wq query)) ! promise j = Rejected err)
      \<and> pending_jobs (queue (fst (flush wq query))) (settle_all ps (snd (flush wq query)))"
    using rej remaining_pending [of wq ps query] by blast
  have split: "queue wq = batch @ queue (fst (flush wq query))"
    by (simp add: st assms(2))
  have idle: "\<not> flushing (fst (flush wq query))"
    using assms(1) by (simp add: st)
  have same: "fst (flush wq query) = fst (flush wq query')"
    by (simp add: st)
  have resume: "flush_resume later batch (Inl err) =
      (later\<lparr>flushing := False\<rparr>, map (\<lambda>j. Reject (promise j) err) batch)"
    by (simp add: flush_resume_def)
  have apart: "pending_jobs (queue wq) ps \<longrightarrow> set batch \<inter> set (queue (fst (flush wq query))) = {}"
  proof
    assume "pending_jobs (queue wq) ps"
    then have "distinct (queue wq)"
      by (simp add: pending_jobs_def distinct_map)
    then show "set batch \<inter> set (queue (fst (flush wq query))) = {}"
      by (simp add: st assms(2) set_take_disj_set_drop_if_distinct)
  qed
  from es heap st [of query] split apart idle dr same resume show ?thesis
    by blast
qed

theorem failed_batch_rejects_all_witness:
  "\<not> flushing (fst mixed_queue)
   \<and> creates_of (take BATCH_SIZE (queue (fst mixed_queue))) \<noteq> []
   \<and> pending_jobs (queue (fst mixed_queue)) (snd mixed_queue)
   \<and> settle_all (snd mixed_queue) (snd (flush (fst mixed_queue) shard_down)) =
       [Rejected (JsError ''Error'' ''Connection terminated unexpectedly''),
        Rejected (JsError ''Error'' ''Connection terminated unexpectedly''),
        Rejected (JsError ''Error'' ''Connection terminated unexpectedly'')]
   \<and> fst (flush (fst mixed_queue) shard_down) = \<lparr> queue = [], flushing = False \<rparr>"
proof -
  let ?b = "take BATCH_SIZE (queue (fst mixed_queue))"
  let ?e = "JsError ''Error'' ''Connection terminated unexpectedly''"
  have a: "\<not> flushing (fst mixed_queue)" by (simp add: mixed_queue_eq)
  have c: "creates_of ?b \<noteq> []" by (simp add: mixed_creates)
  have d: "shard_down (insert_sql (creates_of ?b)) (values_of (creates_of ?b)) = Inl ?e"
    by (simp add: shard_down_def)
  note t = failed_batch_rejects_all [where wq = "fst mixed_queue" and batch = ?b
      and creates = "creates_of ?b" and query = shard_down and err = ?e
      and ps = "snd mixed_queue" and query' = shard_up and later = "fst mixed_queue",
      OF a refl refl c d]
  have es: "snd (flush (fst mixed_queue) shard_down) =
      Query (insert_sql (creates_of ?b)) (values_of (creates_of ?b))
        # map (\<lambda>j. Reject (promise j) ?e) ?b"
    using t by (rule conjunct1)
  have st: "fst (flush (fst mixed_queue) shard_down) = (fst mixed_queue)\<lparr>queue := drop BATCH_SIZE (queue (fst mixed_queue))\<rparr>"
    using t by blast
  show ?thesis
    using a c mixed_pending
    by (simp add: es st) (simp add: mixed_queue_eq BATCH_SIZE_def job_def)
qed







end
